theory Spec2Isabelle
  imports Complex_Main
begin

section \<open>The pitch pipeline of the guitar tuner\<close>

text \<open>
  The script keeps one global \<^verbatim>\<open>tunerState\<close>, estimates the fundamental frequency of
  an audio frame by a difference-based autocorrelation (\<^verbatim>\<open>autoCorrelate\<close>), smooths the
  estimates through a bounded buffer (\<^verbatim>\<open>updatePitch\<close>) and converts the smoothed
  pitch to a note and a deviation in cents (\<^verbatim>\<open>noteFromPitch\<close>,
  \<^verbatim>\<open>frequencyFromNoteNumber\<close>).

  Numbers: a JavaScript number is an IEEE double and the frame is a
  \<^verbatim>\<open>Float32Array\<close>. The embedding computes over \<^typ>\<open>real\<close>: rounding and
  overflow are left out, every sample is a finite number. The places where the
  script can leave the finite numbers are written out where they decide a branch
  (the mean of an empty frame is \<^verbatim>\<open>0/0 = NaN\<close>, and every comparison with
  \<^verbatim>\<open>NaN\<close> is false), or shown to be out of reach (array reads outside the
  bounds, division by a zero lag or by a zero score). One divisor is not guarded
  by the script: the refined lag \<open>bestOffset + 8 * shift\<close> can be zero for a
  contrived frame. The script then returns an infinity, which the reals do not
  have, and the total division of HOL returns \<open>0\<close>; the result on the refined
  frequency is therefore stated for a refined lag other than zero.
\<close>

subsection \<open>Constants\<close>

definition BUFFER_SIZE :: nat where
  "BUFFER_SIZE = 1"

definition MIN_RMS :: real where
  "MIN_RMS = 0.001"

definition NOISE_THRESHOLD :: real where
  "NOISE_THRESHOLD = 0.02"

definition NOTE_STRINGS :: "string list" where
  "NOTE_STRINGS = [''C'', ''C#'', ''D'', ''D#'', ''E'', ''F'', ''F#'', ''G'', ''G#'', ''A'', ''A#'', ''B'']"

subsection \<open>Note arithmetic\<close>

text \<open>
  \<^verbatim>\<open>Math.round\<close> rounds half up, as \<^const>\<open>round\<close> does
  (\<open>round x = \<lfloor>x + 1/2\<rfloor>\<close>); \<^verbatim>\<open>Math.pow(2, x)\<close> is \<open>2 powr x\<close>.
\<close>

definition noteFromPitch :: "real \<Rightarrow> int" where
  "noteFromPitch frequency =
     (let noteNum = 12 * (ln (frequency / 440) / ln 2)
      in round noteNum + 69)"

definition frequencyFromNoteNumber :: "int \<Rightarrow> real" where
  "frequencyFromNoteNumber note = 440 * 2 powr ((real_of_int note - 69) / 12)"

text \<open>The cents expression of \<^verbatim>\<open>updatePitch\<close>: \<^verbatim>\<open>1200 * Math.log2(pitch / idealFrequency)\<close>.\<close>

definition centsOffset :: "real \<Rightarrow> real \<Rightarrow> real" where
  "centsOffset pitch idealFrequency = 1200 * log 2 (pitch / idealFrequency)"

subsection \<open>The frame analysis\<close>

text \<open>
  The loudness of a frame, \<^verbatim>\<open>Math.sqrt(buf.reduce((acc, val) => acc + val * val, 0) / SIZE)\<close>.
  For the empty frame the script divides \<open>0\<close> by \<open>0\<close> and gets \<^verbatim>\<open>NaN\<close>, where
  the division of HOL gives \<open>0\<close>: the two tests that read the loudness, in
  \<^verbatim>\<open>autoCorrelate\<close> and in \<^verbatim>\<open>updatePitch\<close>, are false on \<^verbatim>\<open>NaN\<close>, and the model
  guards them with \<open>SIZE \<noteq> 0\<close>.
\<close>

definition rms :: "real list \<Rightarrow> real" where
  "rms buf = sqrt (foldl (\<lambda>acc val. acc + val * val) 0 buf / real (length buf))"

text \<open>
  The inner loop and the two lines after it: the score of one lag. With
  \<open>MAX_SAMPLES = SIZE div 2\<close> both reads stay inside the frame
  (\<open>i + offset \<le> 2 * MAX_SAMPLES - 2\<close>).
\<close>

definition correlationAt :: "real list \<Rightarrow> nat \<Rightarrow> nat \<Rightarrow> real" where
  "correlationAt buf MAX_SAMPLES offset =
     1 - foldl (\<lambda>correlation i. correlation + \<bar>buf ! i - buf ! (i + offset)\<bar>) 0 [0..<MAX_SAMPLES]
         / real MAX_SAMPLES"

text \<open>The variables of the outer loop, and the array \<^verbatim>\<open>correlations\<close>.\<close>

record scan_state =
  bestOffset :: int
  bestCorrelation :: real
  foundGoodCorrelation :: bool
  lastCorrelation :: real
  correlations :: "real list"

definition scan_state0 :: "nat \<Rightarrow> scan_state" where
  "scan_state0 MAX_SAMPLES =
     \<lparr>bestOffset = - 1, bestCorrelation = 0, foundGoodCorrelation = False,
      lastCorrelation = 1, correlations = replicate MAX_SAMPLES 0\<rparr>"

text \<open>
  The outer loop leaves either through the \<^verbatim>\<open>return\<close> of its \<^verbatim>\<open>else if\<close> branch
  (\<open>Refine\<close>, with the lag it stopped at) or by running to the end (\<open>Completed\<close>).
\<close>

datatype scan_exit = Refine nat scan_state | Completed scan_state

function scan :: "real list \<Rightarrow> nat \<Rightarrow> nat \<Rightarrow> scan_state \<Rightarrow> scan_exit" where
  "scan buf MAX_SAMPLES offset s =
     (if offset < MAX_SAMPLES then
        let correlation = correlationAt buf MAX_SAMPLES offset;
            s1 = s\<lparr>correlations := (correlations s)[offset := correlation]\<rparr>
        in if correlation > 0.9 \<and> correlation > lastCorrelation s then
             let s2 = s1\<lparr>foundGoodCorrelation := True\<rparr>;
                 s3 = (if correlation > bestCorrelation s2
                       then s2\<lparr>bestCorrelation := correlation, bestOffset := int offset\<rparr>
                       else s2)
             in scan buf MAX_SAMPLES (Suc offset) (s3\<lparr>lastCorrelation := correlation\<rparr>)
           else if foundGoodCorrelation s then Refine offset s1
           else scan buf MAX_SAMPLES (Suc offset) (s1\<lparr>lastCorrelation := correlation\<rparr>)
      else Completed s)"
  by pat_completeness auto
termination
  by (relation "measure (\<lambda>(buf, MAX_SAMPLES, offset, s). MAX_SAMPLES - offset)") auto

text \<open>
  The value returned after the noise gate. A read of \<^verbatim>\<open>correlations\<close> outside its
  bounds would give \<^verbatim>\<open>undefined\<close> and a \<^verbatim>\<open>NaN\<close> result; the three indices read
  are shown to lie inside it. The quotient of the \<open>Refine\<close> branch is the quotient
  of the script wherever \<open>bestOffset + 8 * shift\<close> is not zero; where it is zero
  the script returns an infinity and the value here (\<open>0\<close>) does not stand for it.
\<close>

definition lagSearch :: "real list \<Rightarrow> nat \<Rightarrow> real \<Rightarrow> real" where
  "lagSearch buf MAX_SAMPLES sampleRate =
     (case scan buf MAX_SAMPLES 0 (scan_state0 MAX_SAMPLES) of
        Refine offset s \<Rightarrow>
          let shift = (correlations s ! nat (bestOffset s + 1) - correlations s ! nat (bestOffset s - 1))
                      / correlations s ! nat (bestOffset s)
          in sampleRate / (real_of_int (bestOffset s) + 8 * shift)
      | Completed s \<Rightarrow>
          if bestCorrelation s > 0.01 then sampleRate / real_of_int (bestOffset s) else - 1)"

definition autoCorrelate :: "real list \<Rightarrow> real \<Rightarrow> real" where
  "autoCorrelate buf sampleRate =
     (let SIZE = length buf;
          MAX_SAMPLES = SIZE div 2
      in if SIZE \<noteq> 0 \<and> rms buf < NOISE_THRESHOLD then - 1
         else lagSearch buf MAX_SAMPLES sampleRate)"

text \<open>
  A lag qualifies when it takes the first branch of the loop: its score exceeds
  \<open>0.9\<close> and the score of the lag before it (\<open>1\<close> before lag \<open>0\<close>).
\<close>

definition qualifies :: "real list \<Rightarrow> nat \<Rightarrow> nat \<Rightarrow> bool" where
  "qualifies buf MAX_SAMPLES offset \<longleftrightarrow>
     correlationAt buf MAX_SAMPLES offset > 0.9
     \<and> correlationAt buf MAX_SAMPLES offset
         > (if offset = 0 then 1 else correlationAt buf MAX_SAMPLES (offset - 1))"

text \<open>
  What holds of the loop variables on entering the iteration of lag \<open>k\<close>: the
  array holds the scores of the lags below \<open>k\<close>; once a lag has qualified, every
  lag since has, and the best lag is the last one.
\<close>

definition scan_inv :: "real list \<Rightarrow> nat \<Rightarrow> nat \<Rightarrow> scan_state \<Rightarrow> bool" where
  "scan_inv buf M k s \<longleftrightarrow>
     length (correlations s) = M
     \<and> (\<forall>j<k. correlations s ! j = correlationAt buf M j)
     \<and> lastCorrelation s = (if k = 0 then 1 else correlationAt buf M (k - 1))
     \<and> (if foundGoodCorrelation s
        then bestOffset s = int k - 1 \<and> bestCorrelation s = correlationAt buf M (k - 1)
             \<and> (\<exists>q. 0 < q \<and> q < k \<and> (\<forall>j<q. \<not> qualifies buf M j)
                    \<and> (\<forall>j. q \<le> j \<and> j < k \<longrightarrow> qualifies buf M j))
        else bestOffset s = - 1 \<and> bestCorrelation s = 0 \<and> (\<forall>j<k. \<not> qualifies buf M j))"

text \<open>What holds when the loop returns at lag \<open>e\<close>.\<close>

definition refine_post :: "real list \<Rightarrow> nat \<Rightarrow> nat \<Rightarrow> scan_state \<Rightarrow> bool" where
  "refine_post buf M e s \<longleftrightarrow>
     e < M \<and> \<not> qualifies buf M e
     \<and> bestOffset s = int e - 1
     \<and> length (correlations s) = M
     \<and> (\<forall>j\<le>e. correlations s ! j = correlationAt buf M j)
     \<and> (\<exists>q. 0 < q \<and> q < e \<and> (\<forall>j<q. \<not> qualifies buf M j)
            \<and> (\<forall>j. q \<le> j \<and> j < e \<longrightarrow> qualifies buf M j))"

subsection \<open>The smoothing state\<close>

text \<open>
  The fields of \<^verbatim>\<open>tunerState\<close> that the pitch pipeline reads and writes. The
  other fields hold handles of the audio graph (context, analyser, gain node,
  stream, animation id) and are left out.
\<close>

record tunerState =
  pitchBuffer :: "real list"
  lastValidPitch :: real
  isRunning :: bool

definition tunerState0 :: tunerState where
  "tunerState0 = \<lparr>pitchBuffer = [], lastValidPitch = 0, isRunning = False\<rparr>"

text \<open>
  Lines 174 to 180 of \<^verbatim>\<open>updatePitch\<close>. \<open>loud\<close> is the test
  \<^verbatim>\<open>rms > CONSTANTS.MIN_RMS\<close>, \<open>ac\<close> the number \<^verbatim>\<open>autoCorrelate\<close> returned
  (\<open>-1\<close> for no pitch). \<^verbatim>\<open>push\<close> appends, \<^verbatim>\<open>shift\<close> removes the first
  entry. The capacity \<^verbatim>\<open>CONSTANTS.BUFFER_SIZE\<close> is the parameter \<open>K\<close>, so that
  the results hold for every configured capacity; the script runs
  \<open>K = BUFFER_SIZE\<close>.
\<close>

definition track :: "nat \<Rightarrow> tunerState \<Rightarrow> bool \<Rightarrow> real \<Rightarrow> tunerState" where
  "track K st loud ac =
     (if loud \<and> ac \<noteq> - 1 then
        let pushed = pitchBuffer st @ [ac];
            shifted = (if length pushed > K then tl pushed else pushed)
        in st\<lparr>pitchBuffer := shifted, lastValidPitch := ac\<rparr>
      else st)"

text \<open>
  Lines 183 to 186: the entry in the middle of the sorted copy, or
  \<^verbatim>\<open>lastValidPitch || 0\<close> for an empty buffer.
\<close>

definition smoothed :: "tunerState \<Rightarrow> real" where
  "smoothed st =
     (let sortedPitches = sort (pitchBuffer st)
      in if length (pitchBuffer st) > 0
         then sortedPitches ! (length sortedPitches div 2)
         else (if lastValidPitch st \<noteq> 0 then lastValidPitch st else 0))"

text \<open>The animation loop: one call of \<^verbatim>\<open>updatePitch\<close> per frame, in arrival order.\<close>

fun feed :: "nat \<Rightarrow> tunerState \<Rightarrow> (bool \<times> real) list \<Rightarrow> tunerState" where
  "feed K st [] = st"
| "feed K st ((loud, ac) # es) = feed K (track K st loud ac) es"

text \<open>The estimates of a run that reach the buffer, in arrival order.\<close>

fun detected :: "(bool \<times> real) list \<Rightarrow> real list" where
  "detected [] = []"
| "detected ((loud, ac) # es) = (if loud \<and> ac \<noteq> - 1 then ac # detected es else detected es)"

text \<open>
  \<^verbatim>\<open>cleanup\<close>: the calls that tear the audio graph down come first, inside a
  \<^verbatim>\<open>try\<close>; when one of them throws (\<open>teardown_throws\<close>), the handler only updates
  the page and the state is not reset. Otherwise the block under the comment
  \<^verbatim>\<open>// Reset state\<close> runs: \<^verbatim>\<open>pitchBuffer = []\<close> and \<^verbatim>\<open>isRunning = false\<close>.
\<close>

definition cleanup :: "bool \<Rightarrow> tunerState \<Rightarrow> tunerState" where
  "cleanup teardown_throws st =
     (if teardown_throws then st else st\<lparr>pitchBuffer := [], isRunning := False\<rparr>)"

text \<open>
  A median of a list, in the words of the specification: a member with at least
  half of the entries at or below it and at least half at or above it.
\<close>

definition is_median :: "real \<Rightarrow> real list \<Rightarrow> bool" where
  "is_median m xs \<longleftrightarrow>
     m \<in> set xs
     \<and> length xs \<le> 2 * length (filter (\<lambda>x. x \<le> m) xs)
     \<and> length xs \<le> 2 * length (filter (\<lambda>x. m \<le> x) xs)"

subsection \<open>The reading shown for a pitch\<close>

text \<open>
  The glyph appended to the note name: \<open>Down\<close> is the triangle pointing down,
  \<open>Up\<close> the triangle pointing up, \<open>Level\<close> the dash.
\<close>

datatype direction = Down | Up | Level

record reading =
  noteNumber :: int
  noteName :: "string option"
  octave :: int
  idealFrequency :: real
  cents :: real
  direction :: direction

text \<open>
  \<^verbatim>\<open>%\<close> truncates towards zero; for a negative note the index is negative and the
  array read gives \<^verbatim>\<open>undefined\<close> (\<open>None\<close>).
\<close>

definition js_rem :: "int \<Rightarrow> int \<Rightarrow> int" where
  "js_rem a b = sgn a * (\<bar>a\<bar> mod \<bar>b\<bar>)"

definition show_pitch :: "real \<Rightarrow> reading option" where
  "show_pitch pitch =
     (if pitch > 0 then
        let note = noteFromPitch pitch;
            r = js_rem note 12;
            noteName = (if 0 \<le> r then Some (NOTE_STRINGS ! nat r) else None);
            octave = note div 12 - 1;
            idealFrequency = frequencyFromNoteNumber note;
            cents = centsOffset pitch idealFrequency;
            direction = (if \<bar>cents\<bar> > 3 then (if cents > 0 then Down else Up) else Level)
        in Some \<lparr>noteNumber = note, noteName = noteName, octave = octave,
                 idealFrequency = idealFrequency, cents = cents, direction = direction\<rparr>
      else None)"

text \<open>
  One call of \<^verbatim>\<open>updatePitch\<close> on a frame: the new state, the smoothed pitch and
  the reading shown (\<open>None\<close> for the idle display).
\<close>

definition updatePitch :: "tunerState \<Rightarrow> real list \<Rightarrow> real \<Rightarrow> tunerState \<times> real \<times> reading option" where
  "updatePitch st buffer sampleRate =
     (let ac = autoCorrelate buffer sampleRate;
          loud = (buffer \<noteq> [] \<and> rms buffer > MIN_RMS);
          st' = track BUFFER_SIZE st loud ac;
          pitch = smoothed st'
      in (st', pitch, show_pitch pitch))"

subsection \<open>Note arithmetic: results\<close>

lemma frequencyFromNoteNumber_pos: "0 < frequencyFromNoteNumber note"
  by (simp add: frequencyFromNoteNumber_def)

lemma noteNum_of_ideal:
  "12 * (ln (frequencyFromNoteNumber n / 440) / ln 2) = real_of_int (n - 69)"
  by (simp add: frequencyFromNoteNumber_def ln_powr)

text \<open>
  Claim C9. For every integer note number \<open>n\<close> from \<open>-50\<close> to \<open>150\<close>, the note of
  the ideal frequency of \<open>n\<close> is \<open>n\<close> again, and the ideal frequency lies zero cents
  from itself.
\<close>

theorem note_round_trip:
  assumes "- 50 \<le> n" and "n \<le> 150"
  shows "noteFromPitch (frequencyFromNoteNumber n) = n
       \<and> centsOffset (frequencyFromNoteNumber n) (frequencyFromNoteNumber n) = 0"
proof
  have "round (12 * (ln (frequencyFromNoteNumber n / 440) / ln 2)) = n - 69"
    unfolding noteNum_of_ideal by (rule round_of_int)
  then show "noteFromPitch (frequencyFromNoteNumber n) = n"
    by (simp add: noteFromPitch_def)
next
  have "frequencyFromNoteNumber n / frequencyFromNoteNumber n = 1"
    using frequencyFromNoteNumber_pos [of n] by simp
  then show "centsOffset (frequencyFromNoteNumber n) (frequencyFromNoteNumber n) = 0"
    by (simp add: centsOffset_def)
qed

theorem note_round_trip_witness:
  "- 50 \<le> (69::int) \<and> (69::int) \<le> 150
   \<and> noteFromPitch (frequencyFromNoteNumber 69) = 69
   \<and> centsOffset (frequencyFromNoteNumber 69) (frequencyFromNoteNumber 69) = 0"
  using note_round_trip [of 69] by simp

subsection \<open>The smoothing state: results\<close>

lemma drop_append_le: "d \<le> length xs \<Longrightarrow> drop d xs @ ys = drop d (xs @ ys)"
  by simp

lemma drop_drop_last:
  assumes "d \<le> length X - K"
  shows "drop (length (drop d X) - K) (drop d X) = drop (length X - K) X"
proof -
  have "length X - d - K + d = length X - K"
    using assms by arith
  then show ?thesis
    by (simp only: drop_drop length_drop)
qed

lemma filter_drop_le: "length (filter P (drop k ys)) \<le> length (filter P ys)"
  by (metis append_take_drop_id filter_append length_append le_add2)

lemma filter_take_le: "length (filter P (take k ys)) \<le> length (filter P ys)"
  by (metis append_take_drop_id filter_append length_append le_add1)

lemma track_buffer:
  "length (pitchBuffer st) \<le> K \<Longrightarrow> loud \<Longrightarrow> ac \<noteq> - 1 \<Longrightarrow>
   pitchBuffer (track K st loud ac) = drop (Suc (length (pitchBuffer st)) - K) (pitchBuffer st @ [ac])"
  by (auto simp: track_def Let_def drop_Suc Suc_diff_le tl_append split: list.splits)

lemma feed_buffer:
  "length (pitchBuffer st) \<le> K \<Longrightarrow>
   pitchBuffer (feed K st es) =
     drop (length (pitchBuffer st @ detected es) - K) (pitchBuffer st @ detected es)"
proof (induction es arbitrary: st)
  case Nil
  then show ?case by simp
next
  case (Cons e es)
  obtain loud ac where e: "e = (loud, ac)" by (cases e)
  show ?case
  proof (cases "loud \<and> ac \<noteq> - 1")
    case False
    then have "track K st loud ac = st" by (auto simp: track_def)
    with Cons False e show ?thesis by auto
  next
    case True
    let ?pb = "pitchBuffer st"
    let ?d = "Suc (length ?pb) - K"
    have pb': "pitchBuffer (track K st loud ac) = drop ?d (?pb @ [ac])"
      using track_buffer Cons.prems True by blast
    then have len: "length (pitchBuffer (track K st loud ac)) \<le> K"
      using Cons.prems by auto
    have app: "drop ?d (?pb @ [ac]) @ detected es = drop ?d (?pb @ ac # detected es)"
      using drop_append_le [of ?d "?pb @ [ac]" "detected es"] by simp
    have "pitchBuffer (feed K st (e # es)) = pitchBuffer (feed K (track K st loud ac) es)"
      using e by simp
    also have "\<dots> = drop (length (drop ?d (?pb @ ac # detected es)) - K) (drop ?d (?pb @ ac # detected es))"
      using Cons.IH [OF len] unfolding pb' app .
    also have "\<dots> = drop (length (?pb @ ac # detected es) - K) (?pb @ ac # detected es)"
      by (rule drop_drop_last) simp
    finally show ?thesis using True e by simp
  qed
qed

lemma sorted_median:
  assumes "sorted (ys::real list)" "ys \<noteq> []"
  shows "is_median (ys ! (length ys div 2)) ys"
proof -
  let ?k = "length ys div 2"
  let ?m = "ys ! ?k"
  have k: "?k < length ys" using assms(2) by (simp add: length_greater_0_conv)
  have lo: "\<forall>x \<in> set (take (Suc ?k) ys). x \<le> ?m"
    using assms(1) k by (auto simp: in_set_conv_nth sorted_iff_nth_mono)
  have hi: "\<forall>x \<in> set (drop ?k ys). ?m \<le> x"
    using assms(1) k by (auto simp: in_set_conv_nth sorted_iff_nth_mono)
  have "filter (\<lambda>x. x \<le> ?m) (take (Suc ?k) ys) = take (Suc ?k) ys"
    using lo by (simp add: filter_id_conv)
  then have "length (filter (\<lambda>x. x \<le> ?m) (take (Suc ?k) ys)) = Suc ?k"
    using k by simp
  then have 1: "Suc ?k \<le> length (filter (\<lambda>x. x \<le> ?m) ys)"
    using filter_take_le [of "\<lambda>x. x \<le> ?m" "Suc ?k" ys] by simp
  have "filter (\<lambda>x. ?m \<le> x) (drop ?k ys) = drop ?k ys"
    using hi by (simp add: filter_id_conv)
  then have "length (filter (\<lambda>x. ?m \<le> x) (drop ?k ys)) = length ys - ?k"
    by simp
  then have 2: "length ys - ?k \<le> length (filter (\<lambda>x. ?m \<le> x) ys)"
    using filter_drop_le [of "\<lambda>x. ?m \<le> x" ?k ys] by simp
  have "?m \<in> set ys" using k by simp
  with 1 2 show ?thesis unfolding is_median_def by linarith
qed

lemma median_sort:
  assumes "xs \<noteq> []"
  shows "is_median (sort xs ! (length xs div 2)) (xs::real list)"
proof -
  have "is_median (sort xs ! (length (sort xs) div 2)) (sort xs)"
  proof (rule sorted_median)
    show "sorted (sort xs)" by simp
    show "sort xs \<noteq> []" using assms by (metis length_sort length_0_conv)
  qed
  moreover have "length (filter P (sort xs)) = length (filter P xs)" for P :: "real \<Rightarrow> bool"
    by (simp add: filter_sort)
  ultimately show ?thesis by (simp add: is_median_def)
qed


lemma smoothed_nonempty:
  "pitchBuffer st \<noteq> [] \<Longrightarrow>
   smoothed st = sort (pitchBuffer st) ! (length (pitchBuffer st) div 2)"
  by (simp add: smoothed_def)

lemma smoothed_empty: "pitchBuffer st = [] \<Longrightarrow> smoothed st = lastValidPitch st"
  by (simp add: smoothed_def)

lemma feed_none_detected:
  "detected es = [] \<Longrightarrow> feed K st es = st"
  by (induction K st es rule: feed.induct) (auto simp: track_def split: if_splits)

text \<open>
  Claim C7. In every state the update leaves, the smoothed frequency is a median of
  the pitch buffer when the buffer is not empty (the entry in the middle of the
  sorted copy), and \<open>lastValidPitch\<close> when it is empty; as long as no pitch has been
  detected it is \<open>0\<close>.
\<close>

theorem smoothed_is_median:
  "(pitchBuffer (track K st loud ac) \<noteq> [] \<longrightarrow>
      is_median (smoothed (track K st loud ac)) (pitchBuffer (track K st loud ac)))
   \<and> (pitchBuffer (track K st loud ac) = [] \<longrightarrow>
      smoothed (track K st loud ac) = lastValidPitch (track K st loud ac))
   \<and> (detected es = [] \<longrightarrow> smoothed (feed K tunerState0 es) = 0)"
proof (intro conjI impI)
  assume "pitchBuffer (track K st loud ac) \<noteq> []"
  then show "is_median (smoothed (track K st loud ac)) (pitchBuffer (track K st loud ac))"
    by (simp add: smoothed_nonempty median_sort)
next
  assume "pitchBuffer (track K st loud ac) = []"
  then show "smoothed (track K st loud ac) = lastValidPitch (track K st loud ac)"
    by (rule smoothed_empty)
next
  assume "detected es = []"
  then have "feed K tunerState0 es = tunerState0"
    by (rule feed_none_detected)
  then show "smoothed (feed K tunerState0 es) = 0"
    by (simp add: smoothed_def tunerState0_def)
qed

theorem smoothed_is_median_witness:
  "pitchBuffer (track 3 \<lparr>pitchBuffer = [100, 500], lastValidPitch = 500, isRunning = True\<rparr> True 100) \<noteq> []
   \<and> is_median 100 [100, 500, 100]
   \<and> smoothed (track 3 \<lparr>pitchBuffer = [100, 500], lastValidPitch = 500, isRunning = True\<rparr> True 100) = 100
   \<and> pitchBuffer (track 3 \<lparr>pitchBuffer = [], lastValidPitch = 220, isRunning = True\<rparr> False 330) = []
   \<and> smoothed (track 3 \<lparr>pitchBuffer = [], lastValidPitch = 220, isRunning = True\<rparr> False 330) = 220
   \<and> detected [(True, - 1), (False, 330)] = []
   \<and> smoothed (feed 3 tunerState0 [(True, - 1), (False, 330)]) = 0"
  using smoothed_is_median [of 3 "\<lparr>pitchBuffer = [100, 500], lastValidPitch = 500, isRunning = True\<rparr>" True 100 "[(True, - 1), (False, 330)]"]
    smoothed_is_median [of 3 "\<lparr>pitchBuffer = [], lastValidPitch = 220, isRunning = True\<rparr>" False 330 "[]"]
  by (simp add: track_def smoothed_def is_median_def)

text \<open>
  Claim C8. Whatever estimates are fed, the pitch buffer holds at most \<open>K\<close> entries
  after each update: it holds the last \<open>K\<close> detected pitches in arrival order. A
  push onto a full buffer removes the oldest entry and appends the new one.
\<close>

theorem history_bounded_fifo:
  "length (pitchBuffer (feed K tunerState0 es)) \<le> K
   \<and> pitchBuffer (feed K tunerState0 es) = drop (length (detected es) - K) (detected es)
   \<and> (length (pitchBuffer st) \<le> K \<longrightarrow> length (pitchBuffer (track K st loud ac)) \<le> K)
   \<and> (length (pitchBuffer st) = K \<and> 0 < K \<and> loud \<and> ac \<noteq> - 1 \<longrightarrow>
        pitchBuffer (track K st loud ac) = tl (pitchBuffer st) @ [ac])"
proof -
  have fifo: "pitchBuffer (feed K tunerState0 es) = drop (length (detected es) - K) (detected es)"
    using feed_buffer [of tunerState0 K es] by (simp add: tunerState0_def)
  then have "length (pitchBuffer (feed K tunerState0 es)) \<le> K"
    by simp
  moreover have "length (pitchBuffer st) \<le> K \<longrightarrow> length (pitchBuffer (track K st loud ac)) \<le> K"
    by (auto simp: track_def Let_def)
  moreover have "length (pitchBuffer st) = K \<and> 0 < K \<and> loud \<and> ac \<noteq> - 1 \<longrightarrow>
        pitchBuffer (track K st loud ac) = tl (pitchBuffer st) @ [ac]"
    by (auto simp: track_def Let_def)
  ultimately show ?thesis using fifo by blast
qed

theorem history_bounded_fifo_witness:
  "length (pitchBuffer \<lparr>pitchBuffer = [100, 200], lastValidPitch = 200, isRunning = True\<rparr>) \<le> 2
   \<and> length (pitchBuffer \<lparr>pitchBuffer = [100, 200], lastValidPitch = 200, isRunning = True\<rparr>) = 2
   \<and> (0::nat) < 2 \<and> (300::real) \<noteq> - 1
   \<and> pitchBuffer (track 2 \<lparr>pitchBuffer = [100, 200], lastValidPitch = 200, isRunning = True\<rparr> True 300) = [200, 300]
   \<and> pitchBuffer (feed 2 tunerState0 [(True, 100), (True, - 1), (True, 200), (False, 250), (True, 300)]) = [200, 300]"
  using history_bounded_fifo [of 2 "[(True, 100), (True, - 1), (True, 200), (False, 250), (True, 300)]"
      "\<lparr>pitchBuffer = [100, 200], lastValidPitch = 200, isRunning = True\<rparr>" True 300]
  by simp

text \<open>
  Claim C1. \<^verbatim>\<open>cleanup\<close> empties the pitch buffer but leaves \<open>lastValidPitch\<close> as it
  was: after one detection of 440 Hz and a \<^verbatim>\<open>cleanup\<close>, a frame without pitch is
  smoothed to 440, where the initial state gives 0.
\<close>

theorem cleanup_keeps_lastValidPitch:
  "pitchBuffer (cleanup False (track BUFFER_SIZE tunerState0 True 440)) = []
   \<and> lastValidPitch (cleanup False (track BUFFER_SIZE tunerState0 True 440)) = 440
   \<and> smoothed (track BUFFER_SIZE (cleanup False (track BUFFER_SIZE tunerState0 True 440)) False (- 1)) = 440
   \<and> smoothed (track BUFFER_SIZE tunerState0 False (- 1)) = 0"
  by (simp add: cleanup_def track_def smoothed_def tunerState0_def BUFFER_SIZE_def)

text \<open>
  A detection right after \<^verbatim>\<open>cleanup\<close> is smoothed to itself, as in the initial
  state: the buffer was emptied.
\<close>

lemma detected_after_cleanup:
  assumes "f \<noteq> - 1"
  shows "smoothed (track BUFFER_SIZE (cleanup False st) True f) = f"
    and "smoothed (track BUFFER_SIZE tunerState0 True f) = f"
  using assms by (simp_all add: cleanup_def track_def smoothed_def tunerState0_def BUFFER_SIZE_def)

subsection \<open>The reading: results\<close>

lemma centsOffset_pos_iff:
  assumes "0 < p" "0 < i"
  shows "0 < centsOffset p i \<longleftrightarrow> i < p" and "centsOffset p i < 0 \<longleftrightarrow> p < i"
  using assms by (simp_all add: centsOffset_def zero_less_mult_iff mult_less_0_iff)

text \<open>
  Claim C4. For a positive smoothed pitch a reading is shown, and its direction
  glyph follows the cents offset from the nearest note: within three cents either
  way the dash (in tune); above three cents, where the pitch lies above the ideal
  frequency, the triangle pointing down (the glyph the specification names flat);
  below minus three cents, where the pitch lies below the ideal frequency, the
  triangle pointing up (the glyph it names sharp).
\<close>

theorem direction_label:
  assumes "0 < pitch"
  shows "\<exists>r. show_pitch pitch = Some r
     \<and> idealFrequency r = frequencyFromNoteNumber (noteFromPitch pitch)
     \<and> cents r = centsOffset pitch (idealFrequency r)
     \<and> (\<bar>cents r\<bar> \<le> 3 \<longrightarrow> direction r = Level)
     \<and> (3 < cents r \<longrightarrow> direction r = Down \<and> idealFrequency r < pitch)
     \<and> (cents r < - 3 \<longrightarrow> direction r = Up \<and> pitch < idealFrequency r)"
proof -
  let ?i = "frequencyFromNoteNumber (noteFromPitch pitch)"
  have i: "0 < ?i" by (rule frequencyFromNoteNumber_pos)
  have "3 < centsOffset pitch ?i \<Longrightarrow> ?i < pitch"
    using centsOffset_pos_iff(1) [OF assms i] by simp
  moreover have "centsOffset pitch ?i < - 3 \<Longrightarrow> pitch < ?i"
    using centsOffset_pos_iff(2) [OF assms i] by simp
  ultimately show ?thesis
    using assms by (auto simp: show_pitch_def Let_def)
qed

lemma note_quarter: "noteFromPitch (440 * 2 powr (1/48)) = 69"
  by (simp add: noteFromPitch_def ln_powr round_def)

lemma note_quarter_down: "noteFromPitch (440 * 2 powr (- (1/48))) = 69"
  by (simp add: noteFromPitch_def ln_powr round_def)

lemma ideal69: "frequencyFromNoteNumber 69 = 440"
  by (simp add: frequencyFromNoteNumber_def)

lemma cents_quarter: "centsOffset (440 * 2 powr (1/48)) 440 = 25"
  by (simp add: centsOffset_def log_def ln_powr)

lemma cents_quarter_down: "centsOffset (440 * 2 powr (- (1/48))) 440 = - 25"
  by (simp add: centsOffset_def log_def ln_powr)


lemma note_440: "noteFromPitch 440 = 69"
  by (simp add: noteFromPitch_def)

theorem direction_label_witness:
  "(0::real) < 440 \<and> direction (the (show_pitch 440)) = Level
   \<and> (0::real) < 440 * 2 powr (1/48)
   \<and> direction (the (show_pitch (440 * 2 powr (1/48)))) = Down
   \<and> (440::real) < 440 * 2 powr (1/48)
   \<and> (0::real) < 440 * 2 powr (- (1/48))
   \<and> direction (the (show_pitch (440 * 2 powr (- (1/48))))) = Up
   \<and> 440 * 2 powr (- (1/48)) < (440::real)"
proof -
  have p1: "(0::real) < 440" and p2: "(0::real) < 440 * 2 powr (1/48)"
    and p3: "(0::real) < 440 * 2 powr (- (1/48))"
    by simp_all
  obtain r1 where r1: "show_pitch 440 = Some r1"
      "idealFrequency r1 = frequencyFromNoteNumber (noteFromPitch 440)"
      "cents r1 = centsOffset 440 (idealFrequency r1)"
      "\<bar>cents r1\<bar> \<le> 3 \<longrightarrow> direction r1 = Level"
    using direction_label [OF p1] by blast
  have "cents r1 = 0"
    unfolding r1(3) r1(2) note_440 ideal69 by (simp add: centsOffset_def)
  with r1 have w1: "direction (the (show_pitch 440)) = Level"
    by simp
  obtain r2 where r2: "show_pitch (440 * 2 powr (1/48)) = Some r2"
      "idealFrequency r2 = frequencyFromNoteNumber (noteFromPitch (440 * 2 powr (1/48)))"
      "cents r2 = centsOffset (440 * 2 powr (1/48)) (idealFrequency r2)"
      "3 < cents r2 \<longrightarrow> direction r2 = Down \<and> idealFrequency r2 < 440 * 2 powr (1/48)"
    using direction_label [OF p2] by blast
  have "cents r2 = 25"
    unfolding r2(3) r2(2) note_quarter ideal69 by (rule cents_quarter)
  with r2 have w2: "direction (the (show_pitch (440 * 2 powr (1/48)))) = Down"
      "(440::real) < 440 * 2 powr (1/48)"
    by (simp_all add: note_quarter ideal69)
  obtain r3 where r3: "show_pitch (440 * 2 powr (- (1/48))) = Some r3"
      "idealFrequency r3 = frequencyFromNoteNumber (noteFromPitch (440 * 2 powr (- (1/48))))"
      "cents r3 = centsOffset (440 * 2 powr (- (1/48))) (idealFrequency r3)"
      "cents r3 < - 3 \<longrightarrow> direction r3 = Up \<and> 440 * 2 powr (- (1/48)) < idealFrequency r3"
    using direction_label [OF p3] by blast
  have "cents r3 = - 25"
    unfolding r3(3) r3(2) note_quarter_down ideal69 by (rule cents_quarter_down)
  with r3 have w3: "direction (the (show_pitch (440 * 2 powr (- (1/48))))) = Up"
      "440 * 2 powr (- (1/48)) < (440::real)"
    by (simp_all add: note_quarter_down ideal69)
  from p1 p2 p3 w1 w2 w3 show ?thesis by blast
qed

subsection \<open>The frame analysis: the loop\<close>

declare scan.simps [simp del]

lemma foldl_add_sum: "foldl (\<lambda>a i. a + f i) (a0::real) xs = a0 + sum_list (map f xs)"
  by (induction xs arbitrary: a0) auto

lemma correlationAt_sum:
  "correlationAt buf M k = 1 - (\<Sum>i\<leftarrow>[0..<M]. \<bar>buf ! i - buf ! (i + k)\<bar>) / real M"
  by (simp add: correlationAt_def foldl_add_sum)

lemma correlationAt_le_1: "correlationAt buf M k \<le> 1"
proof -
  have "0 \<le> (\<Sum>i\<leftarrow>[0..<M]. \<bar>buf ! i - buf ! (i + k)\<bar>)"
    by (rule sum_list_nonneg) auto
  then show ?thesis
    by (simp add: correlationAt_sum)
qed

lemma correlationAt_0: "0 < M \<Longrightarrow> correlationAt buf M 0 = 1"
  by (simp add: correlationAt_sum)

lemma not_qualifies_0: "\<not> qualifies buf M 0"
  using correlationAt_le_1 [of buf M 0] by (simp add: qualifies_def)

lemma scan_inv_0: "scan_inv buf M 0 (scan_state0 M)"
  by (simp add: scan_inv_def scan_state0_def)

lemma inv_branch:
  assumes "scan_inv buf M k s"
  shows "(correlationAt buf M k > 0.9 \<and> correlationAt buf M k > lastCorrelation s) = qualifies buf M k"
  using assms by (simp add: scan_inv_def qualifies_def)

lemma scan_step_exit:
  assumes "scan_inv buf M k s" "k < M" "\<not> qualifies buf M k" "foundGoodCorrelation s"
  shows "scan buf M k s = Refine k (s\<lparr>correlations := (correlations s)[k := correlationAt buf M k]\<rparr>)"
    and "refine_post buf M k (s\<lparr>correlations := (correlations s)[k := correlationAt buf M k]\<rparr>)"
proof -
  show "scan buf M k s = Refine k (s\<lparr>correlations := (correlations s)[k := correlationAt buf M k]\<rparr>)"
    using assms(2,3,4) inv_branch [OF assms(1)]
    by (subst scan.simps) (auto simp: Let_def)
  have "\<forall>j\<le>k. (correlations s)[k := correlationAt buf M k] ! j = correlationAt buf M j"
    using assms(1,2) by (auto simp: scan_inv_def nth_list_update le_less)
  then show "refine_post buf M k (s\<lparr>correlations := (correlations s)[k := correlationAt buf M k]\<rparr>)"
    using assms by (simp add: scan_inv_def refine_post_def)
qed

lemma scan_step_skip:
  assumes "scan_inv buf M k s" "k < M" "\<not> qualifies buf M k" "\<not> foundGoodCorrelation s"
  shows "\<exists>s'. scan buf M k s = scan buf M (Suc k) s' \<and> scan_inv buf M (Suc k) s'"
proof -
  let ?s' = "s\<lparr>correlations := (correlations s)[k := correlationAt buf M k],
               lastCorrelation := correlationAt buf M k\<rparr>"
  have "scan buf M k s = scan buf M (Suc k) ?s'"
    using assms(2,3,4) inv_branch [OF assms(1)]
    by (subst scan.simps) (auto simp: Let_def)
  moreover have "scan_inv buf M (Suc k) ?s'"
    using assms by (auto simp: scan_inv_def nth_list_update less_Suc_eq)
  ultimately show ?thesis by blast
qed

lemma scan_step_qual:
  assumes "scan_inv buf M k s" "k < M" "qualifies buf M k"
  shows "\<exists>s'. scan buf M k s = scan buf M (Suc k) s' \<and> scan_inv buf M (Suc k) s'"
proof -
  let ?c = "correlationAt buf M k"
  let ?s' = "s\<lparr>correlations := (correlations s)[k := ?c], foundGoodCorrelation := True,
               bestCorrelation := ?c, bestOffset := int k, lastCorrelation := ?c\<rparr>"
  have k0: "0 < k"
    using assms(3) not_qualifies_0 [of buf M] by (cases k) auto
  have c: "?c > 0.9" "?c > lastCorrelation s"
    using assms(3) inv_branch [OF assms(1)] by auto
  have best: "?c > bestCorrelation s"
    using assms(1) c k0 by (auto simp: scan_inv_def split: if_splits)
  have "scan buf M k s = scan buf M (Suc k) ?s'"
    using assms(2) c best
    by (subst scan.simps) (simp add: Let_def)
  moreover have "scan_inv buf M (Suc k) ?s'"
  proof (cases "foundGoodCorrelation s")
    case True
    then obtain q where q: "0 < q" "q < k" "\<forall>j<q. \<not> qualifies buf M j"
        "\<forall>j. q \<le> j \<and> j < k \<longrightarrow> qualifies buf M j"
      using assms(1) by (auto simp: scan_inv_def)
    have "\<forall>j. q \<le> j \<and> j < Suc k \<longrightarrow> qualifies buf M j"
      using q(4) assms(3) by (auto simp: less_Suc_eq)
    with q(1,2,3) have "\<exists>q. 0 < q \<and> q < Suc k \<and> (\<forall>j<q. \<not> qualifies buf M j)
        \<and> (\<forall>j. q \<le> j \<and> j < Suc k \<longrightarrow> qualifies buf M j)"
      by (intro exI [of _ q]) auto
    then show ?thesis
      using assms(1,2) by (auto simp: scan_inv_def nth_list_update less_Suc_eq)
  next
    case False
    then have nq: "\<forall>j<k. \<not> qualifies buf M j"
      using assms(1) by (auto simp: scan_inv_def)
    have "\<forall>j. k \<le> j \<and> j < Suc k \<longrightarrow> qualifies buf M j"
      using assms(3) by (auto simp: less_Suc_eq_le)
    with nq k0 have "\<exists>q. 0 < q \<and> q < Suc k \<and> (\<forall>j<q. \<not> qualifies buf M j)
        \<and> (\<forall>j. q \<le> j \<and> j < Suc k \<longrightarrow> qualifies buf M j)"
      by (intro exI [of _ k]) auto
    then show ?thesis
      using assms(1,2) by (auto simp: scan_inv_def nth_list_update less_Suc_eq)
  qed
  ultimately show ?thesis by blast
qed

lemma scan_result:
  assumes "scan_inv buf M k s" "k \<le> M"
  shows "(\<exists>e s'. scan buf M k s = Refine e s' \<and> refine_post buf M e s')
       \<or> (\<exists>s'. scan buf M k s = Completed s' \<and> scan_inv buf M M s')"
  using assms
proof (induction "M - k" arbitrary: k s)
  case 0
  then have "k = M" by simp
  then have "scan buf M k s = Completed s"
    by (subst scan.simps) simp
  with 0 \<open>k = M\<close> show ?case by simp
next
  case (Suc n)
  then have k: "k < M" by simp
  show ?case
  proof (cases "\<not> qualifies buf M k \<and> foundGoodCorrelation s")
    case True
    then show ?thesis
      using scan_step_exit [OF Suc.prems(1) k] by blast
  next
    case False
    then obtain s' where s': "scan buf M k s = scan buf M (Suc k) s'" "scan_inv buf M (Suc k) s'"
      using scan_step_skip [OF Suc.prems(1) k] scan_step_qual [OF Suc.prems(1) k] by blast
    have "n = M - Suc k" using Suc.hyps(2) by simp
    from Suc.hyps(1) [OF this s'(2)] k show ?thesis
      unfolding s'(1) by simp
  qed
qed

lemma scan_from_0:
  "(\<exists>e s'. scan buf M 0 (scan_state0 M) = Refine e s' \<and> refine_post buf M e s')
   \<or> (\<exists>s'. scan buf M 0 (scan_state0 M) = Completed s' \<and> scan_inv buf M M s')"
  by (rule scan_result [OF scan_inv_0]) simp

lemma region_start_unique:
  assumes "\<forall>j<q. \<not> qualifies buf M j" "qualifies buf M q"
    and "\<forall>j<q'. \<not> qualifies buf M j" "qualifies buf M q'"
  shows "q = q'"
  using assms by (meson linorder_neqE_nat)

lemma lagSearch_none:
  assumes "\<forall>j<M. \<not> qualifies buf M j"
  shows "lagSearch buf M sampleRate = - 1"
  using scan_from_0 [of buf M]
proof (elim disjE exE conjE)
  fix e s' assume "refine_post buf M e s'"
  then obtain q where "q < e" "e < M" "q \<le> q \<and> q < e \<longrightarrow> qualifies buf M q"
    unfolding refine_post_def by blast
  with assms have False by auto
  then show ?thesis ..
next
  fix s' assume s': "scan buf M 0 (scan_state0 M) = Completed s'" "scan_inv buf M M s'"
  have "\<not> foundGoodCorrelation s'"
  proof
    assume "foundGoodCorrelation s'"
    with s'(2) obtain q where "q < M" "q \<le> q \<and> q < M \<longrightarrow> qualifies buf M q"
      unfolding scan_inv_def by auto
    with assms show False by auto
  qed
  with s'(2) have "bestCorrelation s' = 0"
    by (simp add: scan_inv_def)
  with s'(1) show ?thesis
    by (simp add: lagSearch_def)
qed

lemma lagSearch_open_region:
  assumes "q < M" "\<forall>j<q. \<not> qualifies buf M j" "\<forall>j. q \<le> j \<and> j < M \<longrightarrow> qualifies buf M j"
  shows "lagSearch buf M sampleRate = sampleRate / real (M - 1)"
  using scan_from_0 [of buf M]
proof (elim disjE exE conjE)
  fix e s' assume "refine_post buf M e s'"
  then obtain q' where e: "e < M" "\<not> qualifies buf M e"
    and q': "q' < e" "\<forall>j<q'. \<not> qualifies buf M j" "\<forall>j. q' \<le> j \<and> j < e \<longrightarrow> qualifies buf M j"
    unfolding refine_post_def by blast
  have "q' = q"
    using region_start_unique [of q' buf M q] q' assms by auto
  with q'(1) e assms(3) have False by auto
  then show ?thesis ..
next
  fix s' assume s': "scan buf M 0 (scan_state0 M) = Completed s'" "scan_inv buf M M s'"
  have qM: "qualifies buf M (M - 1)" "0 < M"
    using assms(1,3) by auto
  have found: "foundGoodCorrelation s'"
  proof (rule ccontr)
    assume "\<not> foundGoodCorrelation s'"
    with s'(2) have "\<forall>j<M. \<not> qualifies buf M j"
      by (simp add: scan_inv_def)
    with assms(1,3) show False by auto
  qed
  with s'(2) have b: "bestOffset s' = int M - 1" "bestCorrelation s' = correlationAt buf M (M - 1)"
    by (simp_all add: scan_inv_def)
  have "bestCorrelation s' > 0.01"
    using qM(1) b(2) by (simp add: qualifies_def)
  moreover have "real_of_int (bestOffset s') = real (M - 1)"
    using b(1) qM(2) by (simp add: of_nat_diff)
  ultimately show ?thesis
    using s'(1) by (simp add: lagSearch_def)
qed


subsection \<open>The frame analysis: results\<close>

lemma sum_sq: "foldl (\<lambda>acc val. acc + val * val) 0 buf = (\<Sum>v\<leftarrow>buf. v * v)" for buf :: "real list"
  using foldl_add_sum [of "\<lambda>v. v * v" 0 buf] by simp

lemma rms_zero: "\<forall>x\<in>set buf. x = 0 \<Longrightarrow> rms buf = 0"
proof -
  assume "\<forall>x\<in>set buf. x = 0"
  then have "(\<Sum>v\<leftarrow>buf. v * v) = 0"
    by (induction buf) auto
  then show ?thesis by (simp add: rms_def sum_sq)
qed

lemma autoCorrelate_gated:
  "buf \<noteq> [] \<Longrightarrow> rms buf < NOISE_THRESHOLD \<Longrightarrow> autoCorrelate buf sampleRate = - 1"
  by (simp add: autoCorrelate_def)

lemma autoCorrelate_passed:
  "NOISE_THRESHOLD \<le> rms buf \<Longrightarrow> autoCorrelate buf sampleRate = lagSearch buf (length buf div 2) sampleRate"
  by (simp add: autoCorrelate_def)

text \<open>
  Claim C6. A frame that is not empty and whose loudness, the square root of the
  mean of the squared samples, is below \<open>0.02\<close> gets the answer \<open>-1\<close> (no pitch)
  whatever its samples are; so does every frame of zeros.
\<close>

theorem noise_gate:
  assumes "buf \<noteq> []" and "rms buf < 0.02 \<or> (\<forall>x\<in>set buf. x = 0)"
  shows "autoCorrelate buf sampleRate = - 1"
proof -
  have "rms buf < NOISE_THRESHOLD"
    using assms(2) rms_zero [of buf] by (auto simp: NOISE_THRESHOLD_def)
  with assms(1) show ?thesis by (rule autoCorrelate_gated)
qed

lemma rms_less_iff:
  assumes "0 \<le> t"
  shows "rms buf < t \<longleftrightarrow> (\<Sum>v\<leftarrow>buf. v * v) / real (length buf) < t\<^sup>2"
proof -
  have "sqrt (t\<^sup>2) = t" using assms by simp
  then show ?thesis
    using real_sqrt_less_iff [of "(\<Sum>v\<leftarrow>buf. v * v) / real (length buf)" "t\<^sup>2"]
    by (simp add: rms_def sum_sq)
qed

lemma rms_ge_iff:
  assumes "0 \<le> t"
  shows "t \<le> rms buf \<longleftrightarrow> t\<^sup>2 \<le> (\<Sum>v\<leftarrow>buf. v * v) / real (length buf)"
  using rms_less_iff [OF assms, of buf] by auto

theorem noise_gate_witness:
  "[1/100, - (1/100)] \<noteq> ([]::real list) \<and> rms [1/100, - (1/100)] < 0.02
   \<and> autoCorrelate [1/100, - (1/100)] 44100 = - 1
   \<and> [0, 0, 0, 0] \<noteq> ([]::real list)
   \<and> autoCorrelate [0, 0, 0, 0] 44100 = - 1"
proof -
  have r: "rms [1/100, - (1/100)] < 0.02"
    by (subst rms_less_iff) (simp_all add: power2_eq_square)
  have z: "\<forall>x\<in>set [0, 0, 0, 0::real]. x = 0"
    by simp
  show ?thesis
    using noise_gate [of "[1/100, - (1/100)]" 44100] noise_gate [of "[0, 0, 0, 0]" 44100] r z
    by simp
qed


lemma region_monotone:
  assumes "\<forall>j. q < j \<and> j < e \<longrightarrow> correlationAt buf M (j - 1) < correlationAt buf M j"
  shows "q \<le> i \<Longrightarrow> i \<le> j \<Longrightarrow> j < e \<Longrightarrow> correlationAt buf M i \<le> correlationAt buf M j"
proof (induction j)
  case 0
  then show ?case by simp
next
  case (Suc j)
  show ?case
  proof (cases "i = Suc j")
    case True
    then show ?thesis by simp
  next
    case False
    with Suc.prems have "q \<le> i" "i \<le> j" "j < e" by simp_all
    from Suc.IH [OF this] have "correlationAt buf M i \<le> correlationAt buf M j" .
    moreover have "q < Suc j \<and> Suc j < e"
      using Suc.prems \<open>i \<le> j\<close> by simp
    then have "correlationAt buf M (Suc j - 1) < correlationAt buf M (Suc j)"
      using assms by blast
    ultimately show ?thesis by simp
  qed
qed



text \<open>
  The refined lag can be zero. On the frame \<open>[0, -1, 0, -1, 0, -1, 1, 0]\<close> the
  scores are \<open>1\<close>, \<open>0\<close>, \<open>1\<close>, \<open>-1/4\<close>: lag 2 qualifies, the loop returns at lag 3
  with \<open>shift = -1/4\<close>, and \<open>bestOffset + 8 * shift = 0\<close>. The script answers an
  infinity there, which is no real number; the value of \<open>lagSearch\<close> on such a frame
  stands for no answer of the script, and no result above is about it.
\<close>

lemma refined_lag_zero:
  "qualifies [0, - 1, 0, - 1, 0, - 1, 1, 0] 4 2
   \<and> \<not> qualifies [0, - 1, 0, - 1, 0, - 1, 1, 0] 4 3
   \<and> real (2::nat) + 8 * ((correlationAt [0, - 1, 0, - 1, 0, - 1, 1, 0] 4 3
          - correlationAt [0, - 1, 0, - 1, 0, - 1, 1, 0] 4 1)
        / correlationAt [0, - 1, 0, - 1, 0, - 1, 1, 0] 4 2) = 0"
proof -
  let ?buf = "[0, - 1, 0, - 1, 0, - 1, 1, 0::real]"
  have c: "correlationAt ?buf 4 (Suc 0) = 0" "correlationAt ?buf 4 2 = 1"
      "correlationAt ?buf 4 3 = - (1/4)"
    by (simp_all add: correlationAt_def upt_rec)
  then show ?thesis
    by (simp add: qualifies_def)
qed

text \<open>
  Claim C3, as the code has it. The best score is recorded at qualifying lags
  only. For a frame that passes the noise gate: when no lag qualifies, the answer
  is \<open>-1\<close> (no pitch), whatever the scores are; when the lags from the first
  qualifying lag \<open>q\<close> up to the last lag all qualify, so that the loop runs to its
  end inside the region, the answer is the unrefined \<open>sampleRate / bestLag\<close>, with
  \<open>bestLag\<close> the last lag \<open>M - 1\<close>, the best-scoring lag of the region, whose score
  exceeds \<open>0.01\<close>.
\<close>

theorem fallback_frequency:
  assumes "NOISE_THRESHOLD \<le> rms buf" and "M = length buf div 2"
  shows "((\<forall>j<M. \<not> qualifies buf M j) \<longrightarrow> autoCorrelate buf sampleRate = - 1)
       \<and> (q < M \<and> (\<forall>j<q. \<not> qualifies buf M j) \<and> (\<forall>j. q \<le> j \<and> j < M \<longrightarrow> qualifies buf M j)
            \<longrightarrow> autoCorrelate buf sampleRate = sampleRate / real (M - 1)
                \<and> 0.01 < correlationAt buf M (M - 1)
                \<and> (\<forall>j. q \<le> j \<and> j < M \<longrightarrow> correlationAt buf M j \<le> correlationAt buf M (M - 1)))"
proof (intro conjI impI)
  assume "\<forall>j<M. \<not> qualifies buf M j"
  then show "autoCorrelate buf sampleRate = - 1"
    using autoCorrelate_passed [OF assms(1)] assms(2) lagSearch_none by simp
next
  assume a: "q < M \<and> (\<forall>j<q. \<not> qualifies buf M j) \<and> (\<forall>j. q \<le> j \<and> j < M \<longrightarrow> qualifies buf M j)"
  then show "autoCorrelate buf sampleRate = sampleRate / real (M - 1)"
    using autoCorrelate_passed [OF assms(1)] assms(2) lagSearch_open_region [of q M buf] by simp
  from a have "q \<le> M - 1 \<and> M - 1 < M" by arith
  with a have "qualifies buf M (M - 1)" by blast
  then show "0.01 < correlationAt buf M (M - 1)"
    by (simp add: qualifies_def)
  have inc: "\<forall>j. q < j \<and> j < M \<longrightarrow> correlationAt buf M (j - 1) < correlationAt buf M j"
  proof (intro allI impI)
    fix j assume j: "q < j \<and> j < M"
    then have "qualifies buf M j" using a by simp
    with j show "correlationAt buf M (j - 1) < correlationAt buf M j"
      by (auto simp: qualifies_def split: if_splits)
  qed
  show "\<forall>j. q \<le> j \<and> j < M \<longrightarrow> correlationAt buf M j \<le> correlationAt buf M (M - 1)"
    using region_monotone [OF inc, of _ "M - 1"] a by auto
qed

text \<open>
  Claim C3, as stated, fails on the frame \<open>[1, 1/2, 0, 0]\<close>: it passes the noise
  gate, neither lag qualifies, the scores are \<open>1\<close> and \<open>1/2\<close>, both above \<open>0.01\<close>,
  and the answer is \<open>-1\<close>, not the sample rate divided by either lag.
\<close>

theorem fallback_frequency_counterexample:
  "NOISE_THRESHOLD \<le> rms [1, 1/2, 0, 0]
   \<and> \<not> qualifies [1, 1/2, 0, 0] 2 0 \<and> \<not> qualifies [1, 1/2, 0, 0] 2 1
   \<and> correlationAt [1, 1/2, 0, 0] 2 0 = 1 \<and> correlationAt [1, 1/2, 0, 0] 2 1 = 1/2
   \<and> (0.01::real) < 1/2
   \<and> autoCorrelate [1, 1/2, 0, 0] 44100 = - 1
   \<and> autoCorrelate [1, 1/2, 0, 0] 44100 \<noteq> 44100 / real (0::nat)
   \<and> autoCorrelate [1, 1/2, 0, 0] 44100 \<noteq> 44100 / real (1::nat)"
proof -
  let ?buf = "[1, 1/2, 0, 0::real]"
  have c: "correlationAt ?buf 2 0 = 1" "correlationAt ?buf 2 (Suc 0) = 1/2"
    by (simp_all add: correlationAt_def upt_rec)
  have g: "NOISE_THRESHOLD \<le> rms ?buf"
    unfolding NOISE_THRESHOLD_def by (subst rms_ge_iff) (simp_all add: power2_eq_square)
  have n: "\<not> qualifies ?buf 2 0" "\<not> qualifies ?buf 2 1"
    by (simp_all add: qualifies_def c)
  then have "\<forall>j<2. \<not> qualifies ?buf 2 j"
    by (auto simp: less_2_cases_iff)
  then have "lagSearch ?buf 2 44100 = - 1"
    by (rule lagSearch_none)
  moreover have m: "length ?buf div 2 = 2" by simp
  ultimately have "autoCorrelate ?buf 44100 = - 1"
    using autoCorrelate_passed [OF g, of 44100] by (simp only: m)
  with g n c show ?thesis by simp
qed

theorem fallback_frequency_witness:
  "NOISE_THRESHOLD \<le> rms [1, 1/2, 0, 0] \<and> (2::nat) = length [1, 1/2, 0, 0::real] div 2
   \<and> \<not> qualifies [1, 1/2, 0, 0] 2 0 \<and> \<not> qualifies [1, 1/2, 0, 0] 2 1
   \<and> autoCorrelate [1, 1/2, 0, 0] 44100 = - 1
   \<and> NOISE_THRESHOLD \<le> rms [1, - 1, 1, - 1, 1, - 1] \<and> (3::nat) = length [1, - 1, 1, - 1, 1, - 1::real] div 2
   \<and> (2::nat) < 3
   \<and> \<not> qualifies [1, - 1, 1, - 1, 1, - 1] 3 0 \<and> \<not> qualifies [1, - 1, 1, - 1, 1, - 1] 3 1
   \<and> qualifies [1, - 1, 1, - 1, 1, - 1] 3 2
   \<and> autoCorrelate [1, - 1, 1, - 1, 1, - 1] 44100 = 22050"
proof -
  let ?a = "[1, 1/2, 0, 0::real]"
  let ?b = "[1, - 1, 1, - 1, 1, - 1::real]"
  have ca: "correlationAt ?a 2 0 = 1" "correlationAt ?a 2 (Suc 0) = 1/2"
    by (simp_all add: correlationAt_def upt_rec)
  have cb: "correlationAt ?b 3 0 = 1" "correlationAt ?b 3 (Suc 0) = - 1" "correlationAt ?b 3 2 = 1"
    by (simp_all add: correlationAt_def upt_rec)
  have ga: "NOISE_THRESHOLD \<le> rms ?a"
    unfolding NOISE_THRESHOLD_def by (subst rms_ge_iff) (simp_all add: power2_eq_square)
  have gb: "NOISE_THRESHOLD \<le> rms ?b"
    unfolding NOISE_THRESHOLD_def by (subst rms_ge_iff) (simp_all add: power2_eq_square)
  have ma: "(2::nat) = length ?a div 2" and mb: "(3::nat) = length ?b div 2"
    by simp_all
  have na: "\<forall>j<2. \<not> qualifies ?a 2 j"
    by (auto simp: less_2_cases_iff qualifies_def ca)
  have nb: "\<forall>j<2. \<not> qualifies ?b 3 j"
    by (auto simp: less_2_cases_iff qualifies_def cb)
  have qb: "qualifies ?b 3 2"
    by (simp add: qualifies_def cb)
  have rb: "\<forall>j. 2 \<le> j \<and> j < 3 \<longrightarrow> qualifies ?b 3 j"
  proof (intro allI impI)
    fix j :: nat assume "2 \<le> j \<and> j < 3"
    then have "j = 2" by simp
    with qb show "qualifies ?b 3 j" by simp
  qed
  have "autoCorrelate ?a 44100 = - 1"
    using fallback_frequency [OF ga ma, of 44100 0] na by blast
  moreover have lt: "(2::nat) < 3" by simp
  then have "autoCorrelate ?b 44100 = 44100 / real (3 - 1)"
    using fallback_frequency [OF gb mb, of 44100 2] nb rb by blast
  then have "autoCorrelate ?b 44100 = 22050" by simp
  moreover have "\<not> qualifies ?a 2 0" "\<not> qualifies ?a 2 1"
      "\<not> qualifies ?b 3 0" "\<not> qualifies ?b 3 1"
    using na nb by simp_all
  ultimately show ?thesis
    using ga gb ma mb qb lt by blast
qed

text \<open>
  Claim C10. Whenever the lag search returns a frequency, the reads of the
  correlation array are inside its bounds and the divisors are not zero. At the
  return inside the loop: \<open>1 \<le> bestOffset\<close>, \<open>bestOffset + 1 \<le> M - 1\<close>, the
  three entries read hold the scores of their lags, and the divisor
  \<open>correlations[bestOffset]\<close> exceeds \<open>0.9\<close>. At the return after the loop with a
  best score above \<open>0.01\<close>: \<open>1 \<le> bestOffset\<close>. Lag \<open>0\<close>, whose score is exactly
  \<open>1\<close>, is never the best lag. The reads of the frame in the inner loop are
  inside the frame.
\<close>

theorem correlation_reads_in_bounds:
  assumes "M = length buf div 2"
  shows "(scan buf M 0 (scan_state0 M) = Refine e s \<longrightarrow>
            1 \<le> bestOffset s \<and> bestOffset s + 1 \<le> int M - 1
            \<and> length (correlations s) = M
            \<and> (\<forall>i\<in>{bestOffset s - 1, bestOffset s, bestOffset s + 1}.
                  0 \<le> i \<and> i < int (length (correlations s))
                  \<and> correlations s ! nat i = correlationAt buf M (nat i))
            \<and> 0.9 < correlations s ! nat (bestOffset s))
       \<and> (scan buf M 0 (scan_state0 M) = Completed s \<and> 0.01 < bestCorrelation s \<longrightarrow>
            1 \<le> bestOffset s \<and> bestOffset s \<le> int M - 1)
       \<and> (scan buf M 0 (scan_state0 M) = Refine e s \<or> scan buf M 0 (scan_state0 M) = Completed s \<longrightarrow>
            bestOffset s \<noteq> 0)
       \<and> (0 < M \<longrightarrow> correlationAt buf M 0 = 1)
       \<and> (\<forall>i<M. \<forall>offset<M. i + offset < length buf)"
proof (intro conjI impI)
  assume r: "scan buf M 0 (scan_state0 M) = Refine e s"
  with scan_from_0 [of buf M] have "refine_post buf M e s" by auto
  then obtain q where e: "e < M" and q: "0 < q" "q < e"
      "\<forall>j. q \<le> j \<and> j < e \<longrightarrow> qualifies buf M j"
    and b: "bestOffset s = int e - 1" and l: "length (correlations s) = M"
    and c: "\<forall>j\<le>e. correlations s ! j = correlationAt buf M j"
    unfolding refine_post_def by blast
  show "1 \<le> bestOffset s" "bestOffset s + 1 \<le> int M - 1" "length (correlations s) = M"
    using e q b l by simp_all
  have n: "nat (bestOffset s) = e - 1" using b q by simp
  show "\<forall>i\<in>{bestOffset s - 1, bestOffset s, bestOffset s + 1}.
          0 \<le> i \<and> i < int (length (correlations s))
          \<and> correlations s ! nat i = correlationAt buf M (nat i)"
    using b q e l c by auto
  have "q \<le> e - 1 \<and> e - 1 < e" using q by arith
  then have "qualifies buf M (e - 1)" using q(3) by blast
  then show "0.9 < correlations s ! nat (bestOffset s)"
    unfolding n using c by (simp add: qualifies_def)
next
  assume a: "scan buf M 0 (scan_state0 M) = Completed s \<and> 0.01 < bestCorrelation s"
  with scan_from_0 [of buf M] have inv: "scan_inv buf M M s" by auto
  with a have "foundGoodCorrelation s"
    by (auto simp: scan_inv_def split: if_splits)
  with inv obtain q where "0 < q" "q < M" "bestOffset s = int M - 1"
    unfolding scan_inv_def by auto
  then show "1 \<le> bestOffset s" "bestOffset s \<le> int M - 1" by simp_all
next
  assume "scan buf M 0 (scan_state0 M) = Refine e s \<or> scan buf M 0 (scan_state0 M) = Completed s"
  then show "bestOffset s \<noteq> 0"
  proof
    assume "scan buf M 0 (scan_state0 M) = Refine e s"
    with scan_from_0 [of buf M] have "refine_post buf M e s" by auto
    then show ?thesis unfolding refine_post_def by auto
  next
    assume "scan buf M 0 (scan_state0 M) = Completed s"
    with scan_from_0 [of buf M] have "scan_inv buf M M s" by auto
    then show ?thesis unfolding scan_inv_def by (auto split: if_splits)
  qed
next
  assume "0 < M"
  then show "correlationAt buf M 0 = 1" by (rule correlationAt_0)
next
  show "\<forall>i<M. \<forall>offset<M. i + offset < length buf"
    using assms by auto
qed


theorem correlation_reads_in_bounds_witness:
  "(4::nat) = length [1, - 1, 1, - 1, 1, - 1, 1, - 1::real] div 2
   \<and> scan [1, - 1, 1, - 1, 1, - 1, 1, - 1] 4 0 (scan_state0 4)
       = Refine 3 \<lparr>bestOffset = 2, bestCorrelation = 1, foundGoodCorrelation = True,
                   lastCorrelation = 1, correlations = [1, - 1, 1, - 1]\<rparr>
   \<and> (3::nat) = length [1, - 1, 1, - 1, 1, - 1::real] div 2
   \<and> scan [1, - 1, 1, - 1, 1, - 1] 3 0 (scan_state0 3)
       = Completed \<lparr>bestOffset = 2, bestCorrelation = 1, foundGoodCorrelation = True,
                     lastCorrelation = 1, correlations = [1, - 1, 1]\<rparr>
   \<and> (0.01::real) < 1
   \<and> correlationAt [1, - 1, 1, - 1, 1, - 1, 1, - 1] 4 2 = 1
   \<and> correlationAt [1, - 1, 1, - 1, 1, - 1, 1, - 1] 4 0 = 1"
proof -
  let ?a = "[1, - 1, 1, - 1, 1, - 1, 1, - 1::real]"
  let ?b = "[1, - 1, 1, - 1, 1, - 1::real]"
  let ?sa = "\<lparr>bestOffset = 2, bestCorrelation = 1, foundGoodCorrelation = True,
                   lastCorrelation = 1, correlations = [1, - 1, 1, - 1::real]\<rparr>"
  let ?sb = "\<lparr>bestOffset = 2, bestCorrelation = 1, foundGoodCorrelation = True,
                   lastCorrelation = 1, correlations = [1, - 1, 1::real]\<rparr>"
  have ma: "(4::nat) = length ?a div 2" and mb: "(3::nat) = length ?b div 2"
    by simp_all
  have ra: "scan ?a 4 0 (scan_state0 4) = Refine 3 ?sa"
    by code_simp
  have rb: "scan ?b 3 0 (scan_state0 3) = Completed ?sb"
    by code_simp
  have "0 < (4::nat)" by simp
  with correlation_reads_in_bounds [OF ma, of 3 ?sa] ra
  have c: "correlationAt ?a 4 (nat (bestOffset ?sa)) = correlations ?sa ! nat (bestOffset ?sa)"
      "correlationAt ?a 4 0 = 1"
    by simp_all
  have "(0.01::real) < bestCorrelation ?sb" by simp
  with correlation_reads_in_bounds [OF mb, of 0 ?sb] rb
  have "1 \<le> bestOffset ?sb" by blast
  from c have "correlationAt ?a 4 2 = 1" by simp
  moreover have "(0.01::real) < 1" by simp
  ultimately show ?thesis using c(2) ma mb ra rb by blast
qed

lemma scan_cong:
  assumes "\<forall>k<M. correlationAt b1 M k = correlationAt b2 M k"
  shows "scan b1 M k s = scan b2 M k s"
proof (induction "M - k" arbitrary: k s)
  case 0
  then show ?case by (simp add: scan.simps)
next
  case (Suc n)
  then have k: "k < M" and n: "n = M - Suc k" by simp_all
  have c: "correlationAt b1 M k = correlationAt b2 M k"
    using assms k by simp
  show ?case
    unfolding scan.simps [of b1 M k s] scan.simps [of b2 M k s] c
    using Suc.hyps(1) [OF n] by (simp add: Let_def)
qed

lemma correlationAt_butlast:
  assumes "length buf = 2 * M + 1" "k < M"
  shows "correlationAt buf M k = correlationAt (butlast buf) M k"
proof -
  have "\<bar>buf ! i - buf ! (i + k)\<bar> = \<bar>butlast buf ! i - butlast buf ! (i + k)\<bar>" if "i < M" for i
    using that assms by (simp add: nth_butlast)
  then have "map (\<lambda>i. \<bar>buf ! i - buf ! (i + k)\<bar>) [0..<M]
           = map (\<lambda>i. \<bar>butlast buf ! i - butlast buf ! (i + k)\<bar>) [0..<M]"
    by simp
  then show ?thesis
    by (simp only: correlationAt_sum)
qed

lemma lagSearch_butlast:
  assumes "odd (length buf)"
  shows "lagSearch buf (length buf div 2) sampleRate = lagSearch (butlast buf) (length buf div 2) sampleRate"
proof -
  have "length buf = 2 * (length buf div 2) + 1"
    using assms by (simp add: odd_two_times_div_two_succ)
  then have "\<forall>k < length buf div 2. correlationAt buf (length buf div 2) k
      = correlationAt (butlast buf) (length buf div 2) k"
    using correlationAt_butlast by blast
  then show ?thesis
    by (simp add: lagSearch_def scan_cong [of "length buf div 2" buf "butlast buf"])
qed

lemma lagSearch_no_lag: "lagSearch buf 0 sampleRate = - 1"
  by (rule lagSearch_none) simp

text \<open>
  Claim C2, as the code has it. \<^verbatim>\<open>autoCorrelate\<close> has no check of the frame and
  raises nothing. The empty frame gets the answer \<open>-1\<close> (no pitch). A frame of
  odd length is analysed like any other: below the noise threshold the answer is
  \<open>-1\<close>, otherwise it is the lag search over \<open>floor (N / 2)\<close> lags, which never
  reads the last sample.
\<close>

theorem malformed_frame_analysed:
  "(buf = [] \<longrightarrow> autoCorrelate buf sampleRate = - 1)
   \<and> (odd (length buf) \<longrightarrow>
        autoCorrelate buf sampleRate =
          (if rms buf < NOISE_THRESHOLD then - 1
           else lagSearch (butlast buf) (length buf div 2) sampleRate))"
proof (intro conjI impI)
  assume "buf = []"
  then show "autoCorrelate buf sampleRate = - 1"
    by (simp add: autoCorrelate_def lagSearch_no_lag)
next
  assume o: "odd (length buf)"
  then have "buf \<noteq> []" by auto
  then show "autoCorrelate buf sampleRate =
          (if rms buf < NOISE_THRESHOLD then - 1
           else lagSearch (butlast buf) (length buf div 2) sampleRate)"
    using lagSearch_butlast [OF o] by (simp add: autoCorrelate_def)
qed

text \<open>
  Claim C2, as stated, fails: the empty frame and the frame of one sample get the
  answer \<open>-1\<close>, the value for no pitch, and a frame of seven samples gets a
  frequency.
\<close>

theorem malformed_frame_counterexample:
  "autoCorrelate [] 44100 = - 1
   \<and> odd (length [3/10::real]) \<and> autoCorrelate [3/10] 44100 = - 1
   \<and> odd (length [1, - 1, 1, - 1, 1, - 1, 1::real])
   \<and> autoCorrelate [1, - 1, 1, - 1, 1, - 1, 1] 44100 = 22050"
proof -
  have g1: "NOISE_THRESHOLD \<le> rms [3/10]"
    unfolding NOISE_THRESHOLD_def by (subst rms_ge_iff) (simp_all add: power2_eq_square)
  have g7: "NOISE_THRESHOLD \<le> rms [1, - 1, 1, - 1, 1, - 1, 1]"
    unfolding NOISE_THRESHOLD_def by (subst rms_ge_iff) (simp_all add: power2_eq_square)
  have "lagSearch [1, - 1, 1, - 1, 1, - 1, 1] 3 44100 = 22050"
    by code_simp
  moreover have "length [1, - 1, 1, - 1, 1, - 1, 1::real] div 2 = 3" by simp
  ultimately have "autoCorrelate [1, - 1, 1, - 1, 1, - 1, 1] 44100 = 22050"
    using autoCorrelate_passed [OF g7, of 44100] by (simp only:)
  moreover have "autoCorrelate [3/10] 44100 = - 1"
    using autoCorrelate_passed [OF g1, of 44100] by (simp add: lagSearch_no_lag)
  moreover have "autoCorrelate [] 44100 = - 1"
    by (simp add: autoCorrelate_def lagSearch_no_lag)
  ultimately show ?thesis by simp
qed

theorem malformed_frame_analysed_witness:
  "autoCorrelate ([]::real list) 44100 = - 1
   \<and> odd (length [1, - 1, 1, - 1, 1, - 1, 1::real])
   \<and> \<not> rms [1, - 1, 1, - 1, 1, - 1, 1] < NOISE_THRESHOLD
   \<and> autoCorrelate [1, - 1, 1, - 1, 1, - 1, 1] 44100 = lagSearch [1, - 1, 1, - 1, 1, - 1] 3 44100"
proof -
  have g7: "\<not> rms [1, - 1, 1, - 1, 1, - 1, 1] < NOISE_THRESHOLD"
    unfolding NOISE_THRESHOLD_def by (subst rms_less_iff) (simp_all add: power2_eq_square)
  show ?thesis
    using malformed_frame_analysed [of "[]" 44100]
      malformed_frame_analysed [of "[1, - 1, 1, - 1, 1, - 1, 1]" 44100] g7
    by (simp add: numeral_3_eq_3)
qed

subsection \<open>One call of the update\<close>

text \<open>
  A frame for which \<^verbatim>\<open>autoCorrelate\<close> answers a frequency is loud enough for the
  second test of \<^verbatim>\<open>updatePitch\<close>: the noise threshold lies above \<open>MIN_RMS\<close>.
\<close>

lemma loud_when_detected:
  assumes "autoCorrelate buffer sampleRate \<noteq> - 1"
  shows "buffer \<noteq> [] \<and> rms buffer > MIN_RMS"
proof -
  have "buffer \<noteq> []"
    using assms by (auto simp: autoCorrelate_def lagSearch_no_lag)
  moreover from this have "\<not> rms buffer < NOISE_THRESHOLD"
    using assms autoCorrelate_gated by blast
  ultimately show ?thesis
    by (simp add: NOISE_THRESHOLD_def MIN_RMS_def)
qed

lemma updatePitch_state:
  "fst (updatePitch st buffer sampleRate) =
     track BUFFER_SIZE st (autoCorrelate buffer sampleRate \<noteq> - 1) (autoCorrelate buffer sampleRate)"
  using loud_when_detected [of buffer sampleRate]
  by (auto simp: updatePitch_def Let_def track_def)

lemma updatePitch_output:
  "fst (snd (updatePitch st buffer sampleRate)) = smoothed (fst (updatePitch st buffer sampleRate))"
  by (simp add: updatePitch_def Let_def)


end
